theory Spec2Isabelle
  imports Complex_Main "HOL-Library.Sublist"
begin

section \<open>Go strings and the library functions the splitter calls\<close>

text \<open>
  A Go \<open>string\<close> is a sequence of bytes, so it is modelled by \<^typ>\<open>string\<close> (a list of
  8-bit characters). \<open>len(s)\<close> is \<^term>\<open>length s\<close>. Text outside ASCII is held as its
  UTF-8 bytes, exactly as in the Go source file.
\<close>

subsection \<open>package strings\<close>

text \<open>\<open>strings.Index(s, sep)\<close>: the byte offset of the first occurrence of \<open>sep\<close>.\<close>

fun strings_Index :: "string \<Rightarrow> string \<Rightarrow> nat option" where
  "strings_Index [] sep = (if sep = [] then Some 0 else None)"
| "strings_Index (c # cs) sep =
     (if prefix sep (c # cs) then Some 0 else map_option Suc (strings_Index cs sep))"

definition strings_Contains :: "string \<Rightarrow> string \<Rightarrow> bool" where
  "strings_Contains s substr = (strings_Index s substr \<noteq> None)"

text \<open>
  \<open>utf8.DecodeRuneInString\<close>: the first code point of \<open>s\<close> and its width in bytes. An
  invalid or truncated encoding decodes to \<open>RuneError\<close> (U+FFFD) with width 1; the empty
  string to \<open>RuneError\<close> with width 0.
\<close>

definition RuneError :: nat where
  "RuneError = 0xFFFD"

definition isCont :: "nat \<Rightarrow> bool" where
  "isCont b = (0x80 \<le> b \<and> b \<le> 0xBF)"

fun decodeBytes :: "nat list \<Rightarrow> nat \<times> nat" where
  "decodeBytes [] = (RuneError, 0)"
| "decodeBytes (b0 # bs) =
     (if b0 < 0x80 then (b0, 1)
      else if b0 < 0xC2 \<or> 0xF4 < b0 then (RuneError, 1)
      else if b0 < 0xE0 then
        (case bs of
           b1 # _ \<Rightarrow>
             if isCont b1 then ((b0 mod 32) * 64 + b1 mod 64, 2) else (RuneError, 1)
         | _ \<Rightarrow> (RuneError, 1))
      else if b0 < 0xF0 then
        (case bs of
           b1 # b2 # _ \<Rightarrow>
             if (if b0 = 0xE0 then 0xA0 else 0x80) \<le> b1
                \<and> b1 \<le> (if b0 = 0xED then 0x9F else 0xBF) \<and> isCont b2
             then ((b0 mod 16) * 4096 + (b1 mod 64) * 64 + b2 mod 64, 3)
             else (RuneError, 1)
         | _ \<Rightarrow> (RuneError, 1))
      else
        (case bs of
           b1 # b2 # b3 # _ \<Rightarrow>
             if (if b0 = 0xF0 then 0x90 else 0x80) \<le> b1
                \<and> b1 \<le> (if b0 = 0xF4 then 0x8F else 0xBF) \<and> isCont b2 \<and> isCont b3
             then ((b0 mod 8) * 262144 + (b1 mod 64) * 4096 + (b2 mod 64) * 64 + b3 mod 64, 4)
             else (RuneError, 1)
         | _ \<Rightarrow> (RuneError, 1)))"

definition DecodeRuneInString :: "string \<Rightarrow> nat \<times> nat" where
  "DecodeRuneInString s = decodeBytes (map of_char (take 4 s))"

lemma decodeBytes_width: "bs \<noteq> [] \<Longrightarrow> 1 \<le> snd (decodeBytes bs) \<and> snd (decodeBytes bs) \<le> length bs"
  by (cases bs) (auto split: list.splits)

lemma DecodeRune_width:
  "s \<noteq> [] \<Longrightarrow> 1 \<le> snd (DecodeRuneInString s) \<and> snd (DecodeRuneInString s) \<le> length s"
  using decodeBytes_width [of "map of_char (take 4 s)"]
  by (auto simp: DecodeRuneInString_def)

text \<open>
  \<open>strings.Split(s, "")\<close> (the library's \<open>explode\<close>): one string per UTF-8 sequence,
  invalid bytes sliced individually, as the library documents it. (Old releases of Go put
  the encoding of U+FFFD in the place of an invalid byte; on text that is valid UTF-8 the
  two agree.)
\<close>

function explode :: "string \<Rightarrow> string list" where
  "explode s =
     (if s = [] then []
      else take (snd (DecodeRuneInString s)) s # explode (drop (snd (DecodeRuneInString s)) s))"
  by pat_completeness auto
termination
proof (relation "measure length")
  show "wf (measure length)" by simp
next
  fix s :: string
  assume "s \<noteq> []"
  then show "(drop (snd (DecodeRuneInString s)) s, s) \<in> measure length"
    using DecodeRune_width [of s] by (cases s) auto
qed

declare explode.simps [simp del]

text \<open>
  \<open>strings.Split(s, sep)\<close>: \<open>s\<close> cut at every successive (leftmost, non-overlapping)
  occurrence of \<open>sep\<close>; with the empty separator, \<open>explode\<close>.
\<close>

function strings_Split :: "string \<Rightarrow> string \<Rightarrow> string list" where
  "strings_Split s sep =
     (if sep = [] then explode s
      else (case strings_Index s sep of
              None \<Rightarrow> [s]
            | Some m \<Rightarrow> take m s # strings_Split (drop (m + length sep) s) sep))"
  by pat_completeness auto
termination
proof (relation "measure (\<lambda>(s, sep). length s)")
  show "wf (measure (\<lambda>(s, sep). length s))" by simp
next
  fix s sep :: string and m :: nat
  assume sep: "sep \<noteq> []" and m: "strings_Index s sep = Some m"
  have "s \<noteq> []" using sep m by (cases s) auto
  then show "((drop (m + length sep) s, sep), s, sep) \<in> measure (\<lambda>(s, sep). length s)"
    using sep by (cases s) auto
qed

declare strings_Split.simps [simp del]

text \<open>\<open>strings.Join(elems, sep)\<close>.\<close>

fun strings_Join :: "string list \<Rightarrow> string \<Rightarrow> string" where
  "strings_Join [] sep = []"
| "strings_Join [x] sep = x"
| "strings_Join (x # y # ys) sep = x @ sep @ strings_Join (y # ys) sep"

subsection \<open>package unicode and ranging over a string\<close>

text \<open>\<open>unicode.IsSpace\<close>: the Latin-1 spaces, then the \<open>White_Space\<close> table.\<close>

definition unicode_IsSpace :: "nat \<Rightarrow> bool" where
  "unicode_IsSpace r =
     (if r \<le> 0xFF then r \<in> set [0x09, 0x0A, 0x0B, 0x0C, 0x0D, 0x20, 0x85, 0xA0]
      else r = 0x1680 \<or> (0x2000 \<le> r \<and> r \<le> 0x200A) \<or> r = 0x2028 \<or> r = 0x2029
           \<or> r = 0x202F \<or> r = 0x205F \<or> r = 0x3000)"

text \<open>\<open>for _, r := range text\<close>: the code points of \<open>text\<close>, decoded one after another.\<close>

function runes :: "string \<Rightarrow> nat list" where
  "runes s =
     (if s = [] then []
      else fst (DecodeRuneInString s) # runes (drop (snd (DecodeRuneInString s)) s))"
  by pat_completeness auto
termination
proof (relation "measure length")
  show "wf (measure length)" by simp
next
  fix s :: string
  assume "s \<noteq> []"
  then show "(drop (snd (DecodeRuneInString s)) s, s) \<in> measure length"
    using DecodeRune_width [of s] by (cases s) auto
qed

declare runes.simps [simp del]

subsection \<open>package regexp\<close>

text \<open>
  A compiled \<open>*regexp.Regexp\<close> is represented by its \<open>FindAllStringIndex(text, -1)\<close>: the
  list of \<open>(start, end)\<close> byte offsets of its successive non-overlapping matches. The
  caller-supplied preserve patterns are arbitrary such functions. The regular expressions
  the splitter builds itself are character-class runs and quoted literals, modelled below.
\<close>

type_synonym regexp = "string \<Rightarrow> (nat \<times> nat) list"

text \<open>Go's \<open>text[a:b]\<close>.\<close>

definition slice :: "string \<Rightarrow> nat \<Rightarrow> nat \<Rightarrow> string" where
  "slice text a b = take (b - a) (drop a text)"

text \<open>\<open>FindAllString\<close> of a pattern \<open>[class]+\<close>: the maximal runs of bytes of the class.\<close>

function findAllRuns :: "(char \<Rightarrow> bool) \<Rightarrow> string \<Rightarrow> string list" where
  "findAllRuns P [] = []"
| "findAllRuns P (c # cs) =
     (if P c then (c # takeWhile P cs) # findAllRuns P (dropWhile P cs)
      else findAllRuns P cs)"
  by pat_completeness auto
termination
  by (relation "measure (\<lambda>(P, s). length s)") (auto simp: length_dropWhile_le less_Suc_eq_le)

text \<open>The classes \<open>[\r\n]\<close>, \<open>\t\<close> and \<open>\s\<close> (in Go's RE2 syntax \<open>\s\<close> is \<open>[\t\n\f\r ]\<close>).\<close>

definition isNewline :: "char \<Rightarrow> bool" where
  "isNewline c = (c = CHR 0x0A \<or> c = CHR 0x0D)"

definition isTab :: "char \<Rightarrow> bool" where
  "isTab c = (c = CHR 0x09)"

definition reSpace :: "char \<Rightarrow> bool" where
  "reSpace c = (c = CHR 0x09 \<or> c = CHR 0x0A \<or> c = CHR 0x0C \<or> c = CHR 0x0D \<or> c = CHR 0x20)"

lemma strings_Index_bound:
  "strings_Index s sep = Some m \<Longrightarrow> m + length sep \<le> length s"
proof (induction s arbitrary: m)
  case Nil
  then show ?case by (auto split: if_splits)
next
  case (Cons c cs)
  show ?case
  proof (cases "prefix sep (c # cs)")
    case True
    then show ?thesis using Cons.prems by (auto dest: prefix_length_le)
  next
    case False
    then obtain k where "strings_Index cs sep = Some k" "m = Suc k"
      using Cons.prems by auto
    then show ?thesis using Cons.IH by auto
  qed
qed

text \<open>
  \<open>FindAllStringIndex\<close> of a quoted non-empty literal, from byte offset \<open>pos\<close>: its
  successive leftmost non-overlapping occurrences.
\<close>

function findAllLiteral :: "string \<Rightarrow> string \<Rightarrow> nat \<Rightarrow> (nat \<times> nat) list" where
  "findAllLiteral lit text pos =
     (if lit = [] then []
      else (case strings_Index (drop pos text) lit of
              None \<Rightarrow> []
            | Some m \<Rightarrow>
                (pos + m, pos + m + length lit) # findAllLiteral lit text (pos + m + length lit)))"
  by pat_completeness auto
termination
proof (relation "measure (\<lambda>(lit, text, pos). length text - pos)")
  show "wf (measure (\<lambda>(lit, text, pos). length text - pos))" by simp
next
  fix lit t :: string and pos m :: nat
  assume lit: "lit \<noteq> []" and m: "strings_Index (drop pos t) lit = Some m"
  have "m + length lit \<le> length t - pos"
    using strings_Index_bound [OF m] by simp
  moreover have "0 < length lit" using lit by simp
  ultimately show "((lit, t, pos + m + length lit), lit, t, pos)
      \<in> measure (\<lambda>(lit, text, pos). length text - pos)"
    by (cases lit) auto
qed

declare findAllLiteral.simps [simp del]

text \<open>The empty pattern matches the empty string at every code point boundary.\<close>

fun boundaries :: "nat \<Rightarrow> string list \<Rightarrow> nat list" where
  "boundaries pos [] = [pos]"
| "boundaries pos (r # rs) = pos # boundaries (pos + length r) rs"

text \<open>
  \<open>regexp.MustCompile(regexp.QuoteMeta(lit))\<close>, for a literal that is valid UTF-8 and
  holds no U+FFFD (which, as a pattern, also matches an invalid byte of the text).
\<close>

definition literalPattern :: "string \<Rightarrow> regexp" where
  "literalPattern lit text =
     (if lit = [] then map (\<lambda>i. (i, i)) (boundaries 0 (explode text))
      else findAllLiteral lit text 0)"

text \<open>
  \<open>FindStringSubmatch\<close> of \<open>QuoteMeta(preceder) + `(\s)`\<close>: the submatch of the leftmost
  match, that is the white-space byte after the first occurrence of \<open>preceder\<close> that is
  followed by one.
\<close>

fun findPrecederSpace :: "string \<Rightarrow> string \<Rightarrow> string option" where
  "findPrecederSpace preceder [] = None"
| "findPrecederSpace preceder (c # cs) =
     (if prefix preceder (c # cs) then
        (case drop (length preceder) (c # cs) of
           w # _ \<Rightarrow> if reSpace w then Some [w] else findPrecederSpace preceder cs
         | [] \<Rightarrow> findPrecederSpace preceder cs)
      else findPrecederSpace preceder cs)"

section \<open>utils.go\<close>

text \<open>The loop of \<open>LookbehindSplit\<close> over the matches, \<open>lastIndex\<close> threaded through.\<close>

fun lookbehindParts :: "string \<Rightarrow> string \<Rightarrow> nat \<Rightarrow> (nat \<times> nat) list \<Rightarrow> string list" where
  "lookbehindParts text precededBy lastIndex [] = [drop lastIndex text]"
| "lookbehindParts text precededBy lastIndex (match # matches) =
     (slice text lastIndex (fst match) @ precededBy)
       # lookbehindParts text precededBy (snd match) matches"

definition LookbehindSplit :: "string \<Rightarrow> string \<Rightarrow> string \<Rightarrow> string list" where
  "LookbehindSplit text precededBy splitter =
     lookbehindParts text precededBy 0 (findAllLiteral (precededBy @ splitter) text 0)"

definition ContainsSpace :: "string \<Rightarrow> bool" where
  "ContainsSpace text = list_ex unicode_IsSpace (runes text)"

section \<open>semchunk.go: the delimiter selector\<close>

definition fullWidthSentenceTerminators :: "string list" where
  "fullWidthSentenceTerminators =
     [[CHR 0xE3, CHR 0x80, CHR 0x82], [CHR 0xEF, CHR 0xBC, CHR 0x9F], [CHR 0xEF, CHR 0xBC, CHR 0x81]]"

definition fullWidthClauseSparators :: "string list" where
  "fullWidthClauseSparators =
     [[CHR 0xEF, CHR 0xBC, CHR 0x8C], [CHR 0xEF, CHR 0xBC, CHR 0x9B], [CHR 0xE3, CHR 0x80, CHR 0x81],
      [CHR 0xEF, CHR 0xBC, CHR 0x9A], [CHR 0xEF, CHR 0xBC, CHR 0x8D]]"

definition sentenceTerminators :: "string list" where
  "sentenceTerminators = [''.'', ''?'', ''!'']"

definition clauseSeparators :: "string list" where
  "clauseSeparators =
     [[CHR 0xE2, CHR 0x80, CHR 0x94], [CHR 0xE2, CHR 0x80, CHR 0xA6], '','', '';'', '':'']"

definition nonWhitespaceSemanticSplitters :: "string list" where
  "nonWhitespaceSemanticSplitters = sentenceTerminators @ clauseSeparators"

definition fullWidthNonWhitespaceSemanticSpliters :: "string list" where
  "fullWidthNonWhitespaceSemanticSpliters = fullWidthSentenceTerminators @ fullWidthClauseSparators"

fun longestSplitter :: "string list \<Rightarrow> string" where
  "longestSplitter [] = []"
| "longestSplitter (first # rest) =
     foldl (\<lambda>longest splitter. if length splitter > length longest then splitter else longest)
       first rest"

text \<open>The loop over the preserve patterns: the matches of the first pattern that has any.\<close>

fun firstMatches :: "regexp list \<Rightarrow> string \<Rightarrow> (nat \<times> nat) list option" where
  "firstMatches [] text = None"
| "firstMatches (pattern # patterns) text =
     (if pattern text \<noteq> [] then Some (pattern text) else firstMatches patterns text)"

text \<open>The loop that cuts the text around the matches of a preserve pattern.\<close>

fun preserveParts :: "string \<Rightarrow> nat \<Rightarrow> (nat \<times> nat) list \<Rightarrow> string list" where
  "preserveParts text lastIndex [] =
     (if lastIndex < length text then [drop lastIndex text] else [])"
| "preserveParts text lastIndex (match # matches) =
     (if fst match > lastIndex then [slice text lastIndex (fst match)] else [])
       @ slice text (fst match) (snd match) # preserveParts text (snd match) matches"

text \<open>
  The loop over the preceders in the white-space branch: the first terminator that is
  followed by a white-space byte somewhere gives the lookbehind split.
\<close>

fun lookbehindRefine :: "string \<Rightarrow> string list \<Rightarrow> (string \<times> bool \<times> string list) option" where
  "lookbehindRefine text [] = None"
| "lookbehindRefine text (preceder # preceders) =
     (case findPrecederSpace preceder text of
        Some splitter \<Rightarrow> Some (splitter, True, LookbehindSplit text preceder splitter)
      | None \<Rightarrow> lookbehindRefine text preceders)"

definition innerSplit :: "string \<Rightarrow> regexp list \<Rightarrow> string \<times> bool \<times> string list" where
  "innerSplit text preservePatterns =
     (if (strings_Contains text [CHR 0x0A] \<or> strings_Contains text [CHR 0x0D])
         \<and> findAllRuns isNewline text \<noteq> [] then
        (let splitter = longestSplitter (findAllRuns isNewline text)
         in (splitter, True, strings_Split text splitter))
      else if strings_Contains text [CHR 0x09] \<and> findAllRuns isTab text \<noteq> [] then
        (let splitter = longestSplitter (findAllRuns isTab text)
         in (splitter, True, strings_Split text splitter))
      else
        (case firstMatches preservePatterns text of
           Some matches \<Rightarrow> ([], True, preserveParts text 0 matches)
         | None \<Rightarrow>
             (case find (strings_Contains text) fullWidthNonWhitespaceSemanticSpliters of
                Some splitter \<Rightarrow> (splitter, False, strings_Split text splitter)
              | None \<Rightarrow>
                  if ContainsSpace text \<and> findAllRuns reSpace text \<noteq> [] then
                    (let splitter = longestSplitter (findAllRuns reSpace text)
                     in (case (if length splitter = 1
                               then lookbehindRefine text nonWhitespaceSemanticSplitters
                               else None) of
                           Some refined \<Rightarrow> refined
                         | None \<Rightarrow> (splitter, True, strings_Split text splitter)))
                  else
                    (case find (strings_Contains text) nonWhitespaceSemanticSplitters of
                       Some splitter \<Rightarrow> (splitter, False, strings_Split text splitter)
                     | None \<Rightarrow> ([], True, strings_Split text [])))))"

section \<open>semchunk.go: the splitter and its construction\<close>

record TextSplitterOption =
  PreserveURLs :: bool
  PreservePatterns :: "regexp list"

record TextSplitter =
  chunkSize :: int
  countTokenFunc :: "string \<Rightarrow> int"
  overlap :: int
  opts :: TextSplitterOption

text \<open>
  \<open>WithPreserveURLs\<close> appends the package's compiled \<open>urlRegex\<close> whatever the flag is; the
  regular expression itself is not modelled and is taken as a parameter.
  \<open>WithPreservePatterns\<close> compiles each pattern as a quoted literal (a pattern that is not
  valid UTF-8 makes \<open>regexp.MustCompile\<close> panic; the model is of the patterns that
  compile).
\<close>

definition WithPreserveURLs :: "regexp \<Rightarrow> bool \<Rightarrow> TextSplitterOption \<Rightarrow> TextSplitterOption" where
  "WithPreserveURLs urlRegex preserveURLs options =
     options\<lparr>PreserveURLs := preserveURLs,
             PreservePatterns := PreservePatterns options @ [urlRegex]\<rparr>"

definition WithPreservePatterns :: "string list \<Rightarrow> TextSplitterOption \<Rightarrow> TextSplitterOption" where
  "WithPreservePatterns preservePatterns options =
     options\<lparr>PreservePatterns := PreservePatterns options @ map literalPattern preservePatterns\<rparr>"

text \<open>
  The type parameter \<open>K int | float32\<close> of \<open>NewTextSplitter\<close>: the overlap is an \<open>int\<close> or a
  \<open>float32\<close>. A \<open>float32\<close> is a finite number, an infinity or NaN; every comparison with
  NaN is false. Finite values are held as reals and the product with the chunk size is
  taken exactly (the rounding of \<open>float32\<close> arithmetic is not modelled). Go leaves the
  conversion of a NaN or an infinity to \<open>int\<close> to the implementation; the value taken here
  is the one of amd64.
\<close>

datatype float32 = NaN | NegInf | Finite real | PosInf

fun f32_less :: "float32 \<Rightarrow> real \<Rightarrow> bool" where
  "f32_less (Finite x) y = (x < y)"
| "f32_less NegInf y = True"
| "f32_less PosInf y = False"
| "f32_less NaN y = False"

fun f32_greater :: "float32 \<Rightarrow> real \<Rightarrow> bool" where
  "f32_greater (Finite x) y = (x > y)"
| "f32_greater PosInf y = True"
| "f32_greater NegInf y = False"
| "f32_greater NaN y = False"

text \<open>\<open>int(overlapFloat * float32(chunkSize))\<close>: the product, truncated towards zero.\<close>

fun f32_scale_to_int :: "float32 \<Rightarrow> int \<Rightarrow> int" where
  "f32_scale_to_int (Finite x) n =
     (if 0 \<le> x * of_int n then \<lfloor>x * of_int n\<rfloor> else \<lceil>x * of_int n\<rceil>)"
| "f32_scale_to_int NaN n = - (2 ^ 63)"
| "f32_scale_to_int NegInf n = - (2 ^ 63)"
| "f32_scale_to_int PosInf n = - (2 ^ 63)"

datatype overlap_arg = OverlapInt int | OverlapFloat float32

datatype validation_error = OverlapNotBetween0And1 | OverlapNotBetween0AndChunkSize

text \<open>
  \<open>NewTextSplitter\<close>. The function declares \<open>var overlapInt int\<close> (zero) and stores it in
  the splitter. The \<open>float32\<close> branch assigns to it. The \<open>int\<close> branch is
  \<open>else if overlapInt, ok := any(overlap).(int); ok\<close>: the short declaration makes a new
  variable of the same name, local to that branch, which is range-checked there; the outer
  variable is not assigned.
\<close>

definition NewTextSplitter ::
  "int \<Rightarrow> overlap_arg \<Rightarrow> (string \<Rightarrow> int) \<Rightarrow> (TextSplitterOption \<Rightarrow> TextSplitterOption) list
     \<Rightarrow> validation_error + TextSplitter" where
  "NewTextSplitter chunkSize' overlap' countTokenFunc' options =
     (let overlapInt = (0 :: int);
          make = (\<lambda>overlapInt.
            \<lparr>chunkSize = chunkSize', countTokenFunc = countTokenFunc', overlap = overlapInt,
             opts = foldl (\<lambda>ts_opts opt. opt ts_opts)
                      \<lparr>PreserveURLs = False, PreservePatterns = []\<rparr> options\<rparr>)
      in (case overlap' of
            OverlapFloat overlapFloat \<Rightarrow>
              if f32_less overlapFloat 0 \<or> f32_greater overlapFloat 1
              then Inl OverlapNotBetween0And1
              else Inr (make (f32_scale_to_int overlapFloat chunkSize'))
          | OverlapInt overlapInt_inner \<Rightarrow>
              if overlapInt_inner < 0 \<or> overlapInt_inner > chunkSize'
              then Inl OverlapNotBetween0AndChunkSize
              else Inr (make overlapInt)))"

section \<open>semchunk.go: the merger\<close>

text \<open>The run-time panics of Go that the merger can raise.\<close>

datatype panic = IndexOutOfRange | SliceBoundsOutOfRange

definition estimateSize :: "int \<Rightarrow> int \<Rightarrow> int \<Rightarrow> bool \<Rightarrow> int" where
  "estimateSize size' splitSize splitterSize appendSplitter =
     (let nextSize = size' + splitSize
      in if appendSplitter then nextSize + splitterSize else nextSize)"

text \<open>
  The inner loop of \<open>mergeSplits\<close>, which pops from the front of \<open>toMerge\<close>:
  \<open>for size > c.overlap || estimateSize(...) > chunkSize && size > 0\<close>. Its body reads
  \<open>splitSizes[splitIds[0]]\<close> and re-slices \<open>toMerge[1:]\<close> and \<open>splitIds[1:]\<close>; each of
  these panics when out of range.
\<close>

function evictLoop ::
  "TextSplitter \<Rightarrow> int list \<Rightarrow> int \<Rightarrow> int \<Rightarrow> int \<Rightarrow> string list \<times> int list \<times> int
     \<Rightarrow> panic + string list \<times> int list \<times> int" where
  "evictLoop c splitSizes l splitterSize chunkSize' (toMerge, splitIds, size') =
     (if size' > overlap c
         \<or> (estimateSize size' l splitterSize (length toMerge > 0) > chunkSize' \<and> size' > 0) then
        (case splitIds of
           [] \<Rightarrow> Inl IndexOutOfRange
         | id0 # splitIds_tl \<Rightarrow>
             if 0 \<le> id0 \<and> nat id0 < length splitSizes then
               (let size1 = size' - splitSizes ! nat id0;
                    size2 = (if length toMerge > 1 then size1 - splitterSize else size1)
                in (case toMerge of
                      [] \<Rightarrow> Inl SliceBoundsOutOfRange
                    | front # toMerge_tl \<Rightarrow>
                        evictLoop c splitSizes l splitterSize chunkSize'
                          (toMerge_tl, splitIds_tl, size2)))
             else Inl IndexOutOfRange)
      else Inr (toMerge, splitIds, size'))"
  by pat_completeness auto
termination
  by (relation "measure (\<lambda>(c, splitSizes, l, splitterSize, chunkSize', toMerge, splitIds, size').
        length toMerge)") auto

declare evictLoop.simps [simp del]

text \<open>
  One pass of the outer loop before the fragment is appended: when the fragment does not
  fit, the accumulator is emitted (unless it joins to the empty string) and then trimmed
  (overlap) or cleared (no overlap). The state is \<open>(merges, toMerge, splitIds, size)\<close>.
\<close>

definition flushStep ::
  "TextSplitter \<Rightarrow> int list \<Rightarrow> string \<Rightarrow> int \<Rightarrow> int \<Rightarrow> int
     \<Rightarrow> string list \<times> string list \<times> int list \<times> int
     \<Rightarrow> panic + string list \<times> string list \<times> int list \<times> int" where
  "flushStep c splitSizes splitter splitterSize chunkSize' l st =
     (case st of (merges, toMerge, splitIds, size') \<Rightarrow>
        if estimateSize size' l splitterSize (length toMerge > 0) > chunkSize' then
          (let merged = strings_Join toMerge splitter;
               merges1 = (if length merged > 0 then merges @ [merged] else merges)
           in if overlap c > 0 then
                (case evictLoop c splitSizes l splitterSize chunkSize' (toMerge, splitIds, size') of
                   Inl e \<Rightarrow> Inl e
                 | Inr (toMerge1, splitIds1, size1) \<Rightarrow> Inr (merges1, toMerge1, splitIds1, size1))
              else Inr (merges1, [], splitIds, 0))
        else Inr st)"

text \<open>The outer loop \<open>for i, split := range splits\<close>, from index \<open>i\<close> on.\<close>

fun mergeLoop ::
  "TextSplitter \<Rightarrow> int list \<Rightarrow> string \<Rightarrow> int \<Rightarrow> int \<Rightarrow> nat \<Rightarrow> string list
     \<Rightarrow> string list \<times> string list \<times> int list \<times> int
     \<Rightarrow> panic + string list \<times> string list \<times> int list \<times> int" where
  "mergeLoop c splitSizes splitter splitterSize chunkSize' i [] st = Inr st"
| "mergeLoop c splitSizes splitter splitterSize chunkSize' i (split # splits) st =
     (if i < length splitSizes then
        (let l = splitSizes ! i
         in (case flushStep c splitSizes splitter splitterSize chunkSize' l st of
               Inl e \<Rightarrow> Inl e
             | Inr (merges, toMerge, splitIds, size') \<Rightarrow>
                 mergeLoop c splitSizes splitter splitterSize chunkSize' (Suc i) splits
                   (merges, toMerge @ [split], splitIds,
                    (if length (toMerge @ [split]) > 1 then size' + l + splitterSize
                     else size' + l))))
      else Inl IndexOutOfRange)"

definition mergeSplits ::
  "TextSplitter \<Rightarrow> string list \<Rightarrow> int list \<Rightarrow> int list \<Rightarrow> string \<Rightarrow> int
     \<Rightarrow> panic + string list" where
  "mergeSplits c splits splitSizes splitIds splitter chunkSize' =
     (let splitterSize = countTokenFunc c splitter
      in (case mergeLoop c splitSizes splitter splitterSize chunkSize' 0 splits
                 ([], [], splitIds, 0) of
            Inl e \<Rightarrow> Inl e
          | Inr (merges, toMerge, splitIds1, size') \<Rightarrow>
              if length toMerge > 0 then
                (let merged = strings_Join toMerge splitter
                 in if length merged > 0 then Inr (merges @ [merged]) else Inr merges)
              else Inr merges))"

section \<open>semchunk.go: the recursive splitter\<close>

text \<open>
  \<open>split\<close> calls itself on every fragment that is not under the budget, and nothing in
  the source bounds the depth (\<open>recursionDepth\<close> is passed on and never read, so it is left
  out). The model takes fuel, the number of nested calls it may make: \<open>OutOfFuel\<close> stands
  for a recursion that has not returned within that depth.
\<close>

datatype 'a outcome = Returns 'a | Panics panic | OutOfFuel

text \<open>Flushing the buffered good run through the merger, where the source does so.\<close>

definition flushGood ::
  "TextSplitter \<Rightarrow> string \<Rightarrow> int \<Rightarrow> string list \<times> string list \<times> int list \<times> int list
     \<Rightarrow> panic + string list \<times> string list \<times> int list \<times> int list" where
  "flushGood c splitter chunkSize' st =
     (case st of (rets, goodSplits, goodSplitSizes, goodSplitIds) \<Rightarrow>
        if length goodSplits > 0 then
          (case mergeSplits c goodSplits goodSplitSizes goodSplitIds splitter chunkSize' of
             Inl e \<Rightarrow> Inl e
           | Inr merges \<Rightarrow> Inr (rets @ merges, [], [], []))
        else Inr st)"

text \<open>
  The loop \<open>for i, split := range splits\<close> of \<open>split\<close>, from index \<open>i\<close> on; \<open>recurse\<close> is the
  recursive call. The state is \<open>(rets, goodSplits, goodSplitSizes, goodSplitIds)\<close>.
\<close>

fun splitLoop ::
  "(string \<Rightarrow> string list outcome) \<Rightarrow> TextSplitter \<Rightarrow> string \<Rightarrow> int \<Rightarrow> nat \<Rightarrow> string list
     \<Rightarrow> string list \<times> string list \<times> int list \<times> int list
     \<Rightarrow> (string list \<times> string list \<times> int list \<times> int list) outcome" where
  "splitLoop recurse c splitter chunkSize' i [] st = Returns st"
| "splitLoop recurse c splitter chunkSize' i (split # splits) st =
     (case st of (rets, goodSplits, goodSplitSizes, goodSplitIds) \<Rightarrow>
        (let l = countTokenFunc c split
         in if l < chunkSize' then
              splitLoop recurse c splitter chunkSize' (Suc i) splits
                (rets, goodSplits @ [split], goodSplitSizes @ [l], goodSplitIds @ [int i])
            else
              (case flushGood c splitter chunkSize' st of
                 Inl e \<Rightarrow> Panics e
               | Inr (rets1, goodSplits1, goodSplitSizes1, goodSplitIds1) \<Rightarrow>
                   (case recurse split of
                      Returns newSplits \<Rightarrow>
                        splitLoop recurse c splitter chunkSize' (Suc i) splits
                          (rets1 @ newSplits, goodSplits1, goodSplitSizes1, goodSplitIds1)
                    | Panics e \<Rightarrow> Panics e
                    | OutOfFuel \<Rightarrow> OutOfFuel))))"

fun split :: "nat \<Rightarrow> TextSplitter \<Rightarrow> string \<Rightarrow> int \<Rightarrow> string list outcome" where
  "split 0 c text chunkSize' = OutOfFuel"
| "split (Suc fuel) c text chunkSize' =
     (case innerSplit text (PreservePatterns (opts c)) of
        (splitter, splitterIsWhitespace, splits) \<Rightarrow>
          (case splitLoop (\<lambda>fragment. split fuel c fragment chunkSize') c splitter chunkSize' 0
                  splits ([], [], [], []) of
             Returns st \<Rightarrow>
               (case flushGood c splitter chunkSize' st of
                  Inl e \<Rightarrow> Panics e
                | Inr (rets, goodSplits, goodSplitSizes, goodSplitIds) \<Rightarrow> Returns rets)
           | Panics e \<Rightarrow> Panics e
           | OutOfFuel \<Rightarrow> OutOfFuel))"

definition Split :: "nat \<Rightarrow> TextSplitter \<Rightarrow> string \<Rightarrow> string list outcome" where
  "Split fuel c text = split fuel c text (chunkSize c)"

section \<open>Splitters and readings of the specification used in the statements\<close>

text \<open>
  The token counter of the repository's tests of the merger, \<open>len(text)\<close>, and a
  splitter built field by field, as the tests build it.
\<close>

definition lenCounter :: "string \<Rightarrow> int" where
  "lenCounter s = int (length s)"

text \<open>A counter that adds one token (an end-of-text marker) to the byte count.\<close>

definition endCounter :: "string \<Rightarrow> int" where
  "endCounter s = int (length s) + 1"

definition splitterOf :: "int \<Rightarrow> int \<Rightarrow> (string \<Rightarrow> int) \<Rightarrow> regexp list \<Rightarrow> TextSplitter" where
  "splitterOf chunkSize' overlap' countTokenFunc' patterns =
     \<lparr>chunkSize = chunkSize', countTokenFunc = countTokenFunc', overlap = overlap',
      opts = \<lparr>PreserveURLs = False, PreservePatterns = patterns\<rparr>\<rparr>"



text \<open>
  What the \<open>regexp\<close> package guarantees of \<open>FindAllStringIndex\<close>: the matches lie within
  the text, each starts at or after the end of the one before, and an empty match does
  not abut the match before it.
\<close>

fun successiveMatches :: "nat \<Rightarrow> nat option \<Rightarrow> (nat \<times> nat) list \<Rightarrow> bool" where
  "successiveMatches n prevEnd [] = True"
| "successiveMatches n prevEnd (m # ms) =
     (fst m \<le> snd m \<and> snd m \<le> n
      \<and> (case prevEnd of
           None \<Rightarrow> True
         | Some e \<Rightarrow> e \<le> fst m \<and> (fst m = snd m \<longrightarrow> e < fst m))
      \<and> successiveMatches n (Some (snd m)) ms)"

definition regexpContract :: "regexp \<Rightarrow> string \<Rightarrow> bool" where
  "regexpContract p text = successiveMatches (length text) None (p text)"

text \<open>
  What rejoining may put back between chunks: text made of the delimiters the selector can
  choose, that is white-space bytes (newline, carriage return, tab and white-space runs
  are made of them) and the terminators of the two tables.
\<close>

definition delimiterStrings :: "string list" where
  "delimiterStrings =
     map (\<lambda>c. [c]) [CHR 0x09, CHR 0x0A, CHR 0x0C, CHR 0x0D, CHR 0x20]
       @ fullWidthNonWhitespaceSemanticSpliters @ nonWhitespaceSemanticSplitters"

definition delimiterText :: "string \<Rightarrow> bool" where
  "delimiterText gap = (\<exists>ds. set ds \<subseteq> set delimiterStrings \<and> gap = concat ds)"

text \<open>
  Rejoining a list of chunks. \<open>emitted chunks e\<close>: laid one after the other, the chunks
  give the text \<open>e\<close>, where each chunk is \<open>overlapped @ fresh\<close>, its overlapped prefix repeats
  the end of the chunk before it and is left out (the first chunk has none), and its
  fresh part follows a gap of delimiter text, which is empty when the chunk overlaps the
  one before. \<open>rejoins chunks text\<close>: the text is what the chunks give, followed by
  delimiter text.
\<close>

inductive emitted :: "string list \<Rightarrow> string \<Rightarrow> bool" where
  emitted_none: "emitted [] []"
| emitted_chunk:
    "emitted chunks e \<Longrightarrow> delimiterText gap \<Longrightarrow> (overlapped \<noteq> [] \<longrightarrow> gap = [])
       \<Longrightarrow> suffix overlapped (if chunks = [] then [] else last chunks)
       \<Longrightarrow> emitted (chunks @ [overlapped @ fresh]) (e @ gap @ fresh)"

definition rejoins :: "string list \<Rightarrow> string \<Rightarrow> bool" where
  "rejoins chunks text = (\<exists>e gap. emitted chunks e \<and> delimiterText gap \<and> text = e @ gap)"

subsection \<open>Loop invariants\<close>



text \<open>In the splitter's loop the buffered good run has one size for each fragment.\<close>

definition aligned :: "string list \<times> string list \<times> int list \<times> int list \<Rightarrow> bool" where
  "aligned st = (case st of (rets, goodSplits, goodSplitSizes, goodSplitIds) \<Rightarrow>
     length goodSplits = length goodSplitSizes)"

section \<open>Construction\<close>

text \<open>
  C3. The claim: an integer overlap \<open>k\<close> with \<open>0 \<le> k \<le> chunkSize\<close> constructs a splitter
  whose overlap field is \<open>k\<close>. What \<open>NewTextSplitter\<close> does: construction succeeds, and the
  overlap field is 0 whatever \<open>k\<close> is, since the checked value lives in a shadowing
  variable and the stored one is never assigned.
\<close>

theorem NewTextSplitter_int_overlap_is_zero:
  assumes "0 \<le> k" and "k \<le> cs"
  shows "\<exists>ts. NewTextSplitter cs (OverlapInt k) f os = Inr ts \<and> overlap ts = 0 \<and> chunkSize ts = cs"
  using assms by (simp add: NewTextSplitter_def)

theorem NewTextSplitter_int_overlap_is_zero_witness:
  "(0::int) \<le> 5 \<and> (5::int) \<le> 10 \<and>
   (\<exists>ts. NewTextSplitter 10 (OverlapInt 5) lenCounter [] = Inr ts \<and> overlap ts = 0 \<and> overlap ts \<noteq> 5)"
  using NewTextSplitter_int_overlap_is_zero [of 5 10 lenCounter "[]"] by auto


section \<open>The merger\<close>

text \<open>
  C7. With a delimiter \<open>" "\<close> of size 1, chunk size 11 and overlap 5, the merger packs
  \<open>hello, world, test, again\<close> (sizes 5, 5, 4, 5, indices 0 to 3) into
  \<open>"hello world", "world test", "test again"\<close>: one fragment is carried forward each time.
\<close>

theorem mergeSplits_overlap_scenario:
  assumes "countTokenFunc c '' '' = 1" and "overlap c = 5"
  shows "mergeSplits c [''hello'', ''world'', ''test'', ''again''] [5, 5, 4, 5] [0, 1, 2, 3] '' '' 11
         = Inr [''hello world'', ''world test'', ''test again'']"
  using assms
  by (simp add: mergeSplits_def flushStep_def evictLoop.simps estimateSize_def)

theorem mergeSplits_overlap_scenario_witness:
  "countTokenFunc (splitterOf 11 5 lenCounter []) '' '' = 1
   \<and> overlap (splitterOf 11 5 lenCounter []) = 5
   \<and> mergeSplits (splitterOf 11 5 lenCounter []) [''hello'', ''world'', ''test'', ''again'']
        [5, 5, 4, 5] [0, 1, 2, 3] '' '' 11
      = Inr [''hello world'', ''world test'', ''test again'']"
proof -
  have size1: "countTokenFunc (splitterOf 11 5 lenCounter []) '' '' = 1"
    by (simp add: splitterOf_def lenCounter_def)
  have ov: "overlap (splitterOf 11 5 lenCounter []) = 5"
    by (simp add: splitterOf_def)
  show ?thesis
    using size1 ov mergeSplits_overlap_scenario [OF size1 ov] by simp
qed

section \<open>The delimiter selector\<close>

subsection \<open>Joining what was split\<close>

lemma strings_Join_empty_sep: "strings_Join xs [] = concat xs"
  by (induction xs "[] :: string" rule: strings_Join.induct) auto

lemma strings_Join_Cons:
  "xs \<noteq> [] \<Longrightarrow> strings_Join (x # xs) sep = x @ sep @ strings_Join xs sep"
  by (cases xs) auto

lemma concat_explode: "concat (explode s) = s"
proof (induction s rule: explode.induct)
  case (1 s)
  show ?case
  proof (cases "s = []")
    case True
    then show ?thesis by (simp add: explode.simps)
  next
    case False
    then show ?thesis
      using "1.IH" by (subst explode.simps) simp
  qed
qed

lemma strings_Index_decomp:
  "strings_Index s sep = Some m \<Longrightarrow> s = take m s @ sep @ drop (m + length sep) s"
proof (induction s arbitrary: m)
  case Nil
  then show ?case by (auto split: if_splits)
next
  case (Cons c cs)
  show ?case
  proof (cases "prefix sep (c # cs)")
    case True
    then obtain r where r: "c # cs = sep @ r" by (auto simp: prefix_def)
    from True Cons.prems have "m = 0" by simp
    then show ?thesis using r by simp
  next
    case False
    then obtain k where k: "strings_Index cs sep = Some k" "m = Suc k"
      using Cons.prems by auto
    then show ?thesis using Cons.IH [OF k(1)] by simp
  qed
qed

lemma strings_Split_nonempty: "sep \<noteq> [] \<Longrightarrow> strings_Split s sep \<noteq> []"
  by (subst strings_Split.simps) (simp split: option.splits)

lemma strings_Join_Split: "strings_Join (strings_Split s sep) sep = s"
proof (induction s sep rule: strings_Split.induct)
  case (1 s sep)
  show ?case
  proof (cases "sep = []")
    case True
    then show ?thesis
      by (subst strings_Split.simps) (simp add: strings_Join_empty_sep concat_explode)
  next
    case sep: False
    show ?thesis
    proof (cases "strings_Index s sep")
      case None
      then show ?thesis using sep by (subst strings_Split.simps) simp
    next
      case (Some m)
      have "strings_Split s sep = take m s # strings_Split (drop (m + length sep) s) sep"
        using sep Some by (subst strings_Split.simps) simp
      then have "strings_Join (strings_Split s sep) sep
          = take m s @ sep @ strings_Join (strings_Split (drop (m + length sep) s) sep) sep"
        using strings_Split_nonempty [OF sep] by (simp add: strings_Join_Cons)
      also have "\<dots> = take m s @ sep @ drop (m + length sep) s"
        using "1.IH" [OF sep Some] by simp
      also have "\<dots> = s"
        using strings_Index_decomp [OF Some] by simp
      finally show ?thesis .
    qed
  qed
qed

lemma lookbehindParts_nonempty: "lookbehindParts text pre lastIndex ms \<noteq> []"
  by (cases ms) auto

lemma strings_Join_lookbehindParts:
  "strings_Join (lookbehindParts t pre pos (findAllLiteral (pre @ sp) t pos)) sp
     = drop pos t"
proof (induction "pre @ sp" t pos rule: findAllLiteral.induct)
  case (1 t pos)
  show ?case
  proof (cases "pre @ sp = []")
    case True
    then show ?thesis by (subst findAllLiteral.simps) simp
  next
    case lit: False
    show ?thesis
    proof (cases "strings_Index (drop pos t) (pre @ sp)")
      case None
      then show ?thesis using lit by (subst findAllLiteral.simps) simp
    next
      case (Some m)
      let ?next = "pos + m + length (pre @ sp)"
      have "findAllLiteral (pre @ sp) t pos
              = (pos + m, ?next) # findAllLiteral (pre @ sp) t ?next"
        using lit Some by (subst findAllLiteral.simps) simp
      then have "strings_Join (lookbehindParts t pre pos (findAllLiteral (pre @ sp) t pos)) sp
          = (slice t pos (pos + m) @ pre) @ sp
              @ strings_Join (lookbehindParts t pre ?next (findAllLiteral (pre @ sp) t ?next)) sp"
        by (simp add: strings_Join_Cons lookbehindParts_nonempty)
      also have "\<dots> = take m (drop pos t) @ (pre @ sp) @ drop ?next t"
        using "1.hyps" [OF lit Some] by (simp add: slice_def)
      also have "\<dots> = drop pos t"
        using strings_Index_decomp [OF Some] by (simp add: ac_simps)
      finally show ?thesis .
    qed
  qed
qed

lemma strings_Join_LookbehindSplit:
  "strings_Join (LookbehindSplit text pre sp) sp = text"
  using strings_Join_lookbehindParts [of "text" pre 0 sp] by (simp add: LookbehindSplit_def)

lemma slice_drop: "a \<le> b \<Longrightarrow> slice t a b @ drop b t = drop a t"
proof -
  assume "a \<le> b"
  then have "drop b t = drop (b - a) (drop a t)" by simp
  then show ?thesis by (simp add: slice_def del: drop_drop)
qed

lemma concat_preserveParts:
  assumes "successiveMatches (length text) prev ms"
    and "prev = None \<and> lastIndex = 0 \<or> prev = Some lastIndex"
  shows "concat (preserveParts text lastIndex ms) = drop lastIndex text"
  using assms
proof (induction ms arbitrary: lastIndex prev)
  case Nil
  then show ?case by simp
next
  case (Cons m ms)
  from Cons.prems have le: "lastIndex \<le> fst m" "fst m \<le> snd m"
    by (auto split: option.splits)
  from Cons.prems have rest: "successiveMatches (length text) (Some (snd m)) ms" by simp
  have tl: "concat (preserveParts text (snd m) ms) = drop (snd m) text"
    using Cons.IH [OF rest] by simp
  have "concat (preserveParts text lastIndex (m # ms))
      = slice text lastIndex (fst m) @ slice text (fst m) (snd m) @ drop (snd m) text"
    using le tl by (auto simp: slice_def)
  also have "\<dots> = drop lastIndex text"
    using le by (simp add: slice_drop)
  finally show ?case .
qed

lemma firstMatches_Some:
  "firstMatches ps text = Some ms \<Longrightarrow> \<exists>p \<in> set ps. ms = p text \<and> ms \<noteq> []"
  by (induction ps) (auto split: if_splits)

lemma lookbehindRefine_Some:
  "lookbehindRefine text ps = Some r \<Longrightarrow> strings_Join (snd (snd r)) (fst r) = text"
  by (induction ps) (auto split: option.splits simp: strings_Join_LookbehindSplit)

lemma findAllRuns_empty_iff: "findAllRuns P s = [] \<longleftrightarrow> \<not> list_ex P s"
  by (induction s) (auto simp: list_ex_iff)

lemma firstMatches_None: "\<forall>p \<in> set ps. p t = [] \<Longrightarrow> firstMatches ps t = None"
  by (induction ps) auto

lemma innerSplit_join:
  assumes "\<forall>p \<in> set preservePatterns. regexpContract p text"
  shows "strings_Join (snd (snd (innerSplit text preservePatterns)))
           (fst (innerSplit text preservePatterns)) = text"
proof -
  have preserve: "strings_Join (preserveParts text 0 ms) [] = text"
    if "firstMatches preservePatterns text = Some ms" for ms
  proof -
    from firstMatches_Some [OF that] obtain p where "p \<in> set preservePatterns" "ms = p text"
      by blast
    with assms have "successiveMatches (length text) None ms"
      by (auto simp: regexpContract_def)
    then show ?thesis
      using concat_preserveParts [of "text" None ms 0] by (simp add: strings_Join_empty_sep)
  qed
  show ?thesis
    unfolding innerSplit_def
    by (auto simp: Let_def strings_Join_Split preserve
          split: option.splits dest: lookbehindRefine_Some)
qed

text \<open>
  C9. Joining the fragments that \<open>innerSplit\<close> returns with the delimiter it returns gives
  the text back, in every branch (newline and tab runs, preserve patterns, terminators,
  white-space runs, the lookbehind refinement, single characters), for preserve patterns
  that keep the contract of \<open>FindAllStringIndex\<close>.
\<close>

theorem innerSplit_join_reconstructs:
  assumes "\<forall>p \<in> set preservePatterns. regexpContract p text"
  shows "strings_Join (snd (snd (innerSplit text preservePatterns)))
           (fst (innerSplit text preservePatterns)) = text"
  using assms by (rule innerSplit_join)

theorem innerSplit_join_reconstructs_witness:
  "regexpContract (literalPattern ''ab'') ''see ab. now''
   \<and> innerSplit ''see ab. now'' [literalPattern ''ab''] = ([], True, [''see '', ''ab'', ''. now''])
   \<and> strings_Join (snd (snd (innerSplit ''see ab. now'' [literalPattern ''ab''])))
        (fst (innerSplit ''see ab. now'' [literalPattern ''ab''])) = ''see ab. now''"
proof -
  have contract: "regexpContract (literalPattern ''ab'') ''see ab. now''"
    by code_simp
  have run: "innerSplit ''see ab. now'' [literalPattern ''ab''] = ([], True, [''see '', ''ab'', ''. now''])"
    by code_simp
  show ?thesis
    using contract run
      innerSplit_join_reconstructs [of "[literalPattern ''ab'']" "''see ab. now''"]
    by simp
qed

subsection \<open>The place of the terminators in the priority order\<close>

text \<open>
  C4, as stated, fails: a span with a half-width terminator and a space is split at the
  space, with white-space class true, not at the terminator.
\<close>

theorem innerSplit_halfwidth_after_whitespace:
  "strings_Contains ''a.b c'' ''.''
   \<and> \<not> strings_Contains ''a.b c'' [CHR 0x0A] \<and> \<not> strings_Contains ''a.b c'' [CHR 0x0D]
   \<and> \<not> strings_Contains ''a.b c'' [CHR 0x09]
   \<and> innerSplit ''a.b c'' [] = ('' '', True, [''a.b'', ''c''])
   \<and> innerSplit ''a.b c'' [] \<noteq> (''.'', False, strings_Split ''a.b c'' ''.'')"
  by code_simp

text \<open>
  C4, amended. In a span with no newline, carriage return or tab and no preserve-pattern
  match: a full-width terminator splits the span at the first one present in priority
  order, white-space class false, whether the span has white space or not; a half-width
  terminator does so only in a span that has no full-width terminator and no white space.
\<close>

theorem innerSplit_terminators:
  assumes "\<not> strings_Contains text [CHR 0x0A]" and "\<not> strings_Contains text [CHR 0x0D]"
    and "\<not> strings_Contains text [CHR 0x09]"
    and "\<forall>p \<in> set preservePatterns. p text = []"
  shows "(find (strings_Contains text) fullWidthNonWhitespaceSemanticSpliters = Some s
            \<longrightarrow> innerSplit text preservePatterns = (s, False, strings_Split text s))
       \<and> (find (strings_Contains text) fullWidthNonWhitespaceSemanticSpliters = None
            \<and> \<not> list_ex reSpace text
            \<and> find (strings_Contains text) nonWhitespaceSemanticSplitters = Some s
            \<longrightarrow> innerSplit text preservePatterns = (s, False, strings_Split text s))"
  using assms firstMatches_None [of preservePatterns "text"]
  by (simp add: innerSplit_def findAllRuns_empty_iff)

theorem innerSplit_terminators_witness:
  "\<not> strings_Contains [CHR ''a'', CHR 0xE3, CHR 0x80, CHR 0x82, CHR '' '', CHR ''b''] [CHR 0x0A]
   \<and> \<not> strings_Contains [CHR ''a'', CHR 0xE3, CHR 0x80, CHR 0x82, CHR '' '', CHR ''b''] [CHR 0x0D]
   \<and> \<not> strings_Contains [CHR ''a'', CHR 0xE3, CHR 0x80, CHR 0x82, CHR '' '', CHR ''b''] [CHR 0x09]
   \<and> find (strings_Contains [CHR ''a'', CHR 0xE3, CHR 0x80, CHR 0x82, CHR '' '', CHR ''b''])
         fullWidthNonWhitespaceSemanticSpliters = Some [CHR 0xE3, CHR 0x80, CHR 0x82]
   \<and> innerSplit [CHR ''a'', CHR 0xE3, CHR 0x80, CHR 0x82, CHR '' '', CHR ''b''] []
       = ([CHR 0xE3, CHR 0x80, CHR 0x82], False, [''a'', '' b''])
   \<and> \<not> strings_Contains ''a,b.c'' [CHR 0x0A] \<and> \<not> strings_Contains ''a,b.c'' [CHR 0x0D]
   \<and> \<not> strings_Contains ''a,b.c'' [CHR 0x09]
   \<and> find (strings_Contains ''a,b.c'') fullWidthNonWhitespaceSemanticSpliters = None
   \<and> \<not> list_ex reSpace ''a,b.c''
   \<and> find (strings_Contains ''a,b.c'') nonWhitespaceSemanticSplitters = Some ''.''
   \<and> innerSplit ''a,b.c'' [] = (''.'', False, [''a,b'', ''c''])"
proof -
  let ?fw = "[CHR ''a'', CHR 0xE3, CHR 0x80, CHR 0x82, CHR '' '', CHR ''b'']"
  have fw: "\<not> strings_Contains ?fw [CHR 0x0A]" "\<not> strings_Contains ?fw [CHR 0x0D]"
    "\<not> strings_Contains ?fw [CHR 0x09]"
    "find (strings_Contains ?fw) fullWidthNonWhitespaceSemanticSpliters
       = Some [CHR 0xE3, CHR 0x80, CHR 0x82]"
    "strings_Split ?fw [CHR 0xE3, CHR 0x80, CHR 0x82] = [''a'', '' b'']"
    by code_simp+
  have hw: "\<not> strings_Contains ''a,b.c'' [CHR 0x0A]" "\<not> strings_Contains ''a,b.c'' [CHR 0x0D]"
    "\<not> strings_Contains ''a,b.c'' [CHR 0x09]"
    "find (strings_Contains ''a,b.c'') fullWidthNonWhitespaceSemanticSpliters = None"
    "\<not> list_ex reSpace ''a,b.c''"
    "find (strings_Contains ''a,b.c'') nonWhitespaceSemanticSplitters = Some ''.''"
    "strings_Split ''a,b.c'' ''.'' = [''a,b'', ''c'']"
    by code_simp+
  show ?thesis
    using fw hw
      innerSplit_terminators [of ?fw "[]" "[CHR 0xE3, CHR 0x80, CHR 0x82]"]
      innerSplit_terminators [of "''a,b.c''" "[]" "''.''"]
    by simp
qed

section \<open>The recursive splitter\<close>

subsection \<open>More fuel does not change a result\<close>

lemma splitLoop_fuel_mono:
  assumes "\<And>t r. recurse1 t = r \<Longrightarrow> r \<noteq> OutOfFuel \<Longrightarrow> recurse2 t = r"
    and "splitLoop recurse1 c splitter cs i splits st = r"
    and "r \<noteq> OutOfFuel"
  shows "splitLoop recurse2 c splitter cs i splits st = r"
  using assms(2,3)
proof (induction splits arbitrary: i st)
  case Nil
  then show ?case by simp
next
  case (Cons s splits)
  obtain rets gs gss gids where st: "st = (rets, gs, gss, gids)" by (cases st)
  show ?case
  proof (cases "countTokenFunc c s < cs")
    case True
    then show ?thesis using Cons st by simp
  next
    case False
    show ?thesis
    proof (cases "flushGood c splitter cs st")
      case (Inl e)
      then show ?thesis using Cons.prems False st by simp
    next
      case (Inr st1)
      obtain rets1 gs1 gss1 gids1 where st1: "st1 = (rets1, gs1, gss1, gids1)" by (cases st1)
      show ?thesis
      proof (cases "recurse1 s")
        case (Returns new)
        then have "recurse2 s = Returns new" using assms(1) by blast
        then show ?thesis
          using Cons.prems Cons.IH False st Inr st1 Returns by simp
      next
        case (Panics e)
        then have "recurse2 s = Panics e" using assms(1) by blast
        then show ?thesis using Cons.prems False st Inr st1 Panics by simp
      next
        case OutOfFuel
        then show ?thesis using Cons.prems False st Inr st1 by simp
      qed
    qed
  qed
qed

lemma split_fuel_Suc:
  "split fuel c t cs = r \<Longrightarrow> r \<noteq> OutOfFuel \<Longrightarrow> split (Suc fuel) c t cs = r"
proof (induction fuel arbitrary: t r)
  case 0
  then show ?case by simp
next
  case (Suc fuel)
  obtain splitter ws splits where inner: "innerSplit t (PreservePatterns (opts c)) = (splitter, ws, splits)"
    by (cases "innerSplit t (PreservePatterns (opts c))")
  let ?loop = "\<lambda>n. splitLoop (\<lambda>fragment. split n c fragment cs) c splitter cs 0 splits ([], [], [], [])"
  have "?loop fuel \<noteq> OutOfFuel"
    using Suc.prems inner by (auto split: outcome.splits)
  then have "?loop (Suc fuel) = ?loop fuel"
    using splitLoop_fuel_mono [where ?recurse1.0 = "\<lambda>fragment. split fuel c fragment cs"
        and ?recurse2.0 = "\<lambda>fragment. split (Suc fuel) c fragment cs"] Suc.IH
    by blast
  then show ?case using Suc.prems inner by simp
qed

lemma split_fuel_add:
  "split fuel c t cs = r \<Longrightarrow> r \<noteq> OutOfFuel \<Longrightarrow> split (fuel + n) c t cs = r"
proof (induction n)
  case 0
  then show ?case by simp
next
  case (Suc n)
  then have "split (fuel + n) c t cs = r" by blast
  then have "split (Suc (fuel + n)) c t cs = r"
    using Suc.prems(2) by (rule split_fuel_Suc)
  then show ?case by (simp only: add_Suc_right)
qed

subsection \<open>Panics and recursion without end\<close>

text \<open>
  C2. The claim: \<open>Split\<close> never panics, and the size subtracted for the evicted front
  fragment is an in-bounds read of that fragment's own size. On the splitter that
  \<open>NewTextSplitter(2, float32(0.5), len)\<close> builds (chunk size 2, overlap 1), the text
  \<open>"aa bb d e"\<close> makes the merger read \<open>splitSizes[2]\<close> of a two-element slice: the good
  run \<open>d, e\<close> carries the positional indices 2 and 3 of the enclosing fragment list, and
  its sizes are indexed from 0.
\<close>

theorem Split_panics_on_shifted_indices:
  "NewTextSplitter 2 (OverlapFloat (Finite (1 / 2))) lenCounter [] = Inr (splitterOf 2 1 lenCounter [])
   \<and> Split (3 + n) (splitterOf 2 1 lenCounter []) ''aa bb d e'' = Panics IndexOutOfRange"
proof -
  have "split 3 (splitterOf 2 1 lenCounter []) ''aa bb d e'' 2 = Panics IndexOutOfRange"
    by code_simp
  then have "split (3 + n) (splitterOf 2 1 lenCounter []) ''aa bb d e'' 2 = Panics IndexOutOfRange"
    by (rule split_fuel_add) simp
  moreover have "chunkSize (splitterOf 2 1 lenCounter []) = 2"
    by (simp add: splitterOf_def)
  ultimately show ?thesis
    by (simp add: Split_def NewTextSplitter_def splitterOf_def)
qed

text \<open>
  C5. The claim: \<open>split\<close> terminates when every single character is within budget. On a
  splitter with chunk size 2, the counter \<open>len\<close> and the preserve pattern \<open>ab\<close>, every
  single character has size 1, and \<open>split\<close> of \<open>"ab"\<close> does not return at any depth: the
  preserve pattern matches the whole span, the span is its own only fragment, and it is
  not under the budget. Nor does \<open>split\<close> of \<open>"a"\<close> return with chunk size 1 and no
  preserve pattern: the character has size 1, which is not below the chunk size.
\<close>

theorem Split_diverges_on_preserved_span:
  "NewTextSplitter 2 (OverlapInt 0) lenCounter [WithPreservePatterns [''ab'']]
     = Inr (splitterOf 2 0 lenCounter [literalPattern ''ab''])
   \<and> lenCounter ''a'' < 2 \<and> lenCounter ''b'' < 2
   \<and> Split fuel (splitterOf 2 0 lenCounter [literalPattern ''ab'']) ''ab'' = OutOfFuel
   \<and> NewTextSplitter 1 (OverlapInt 0) lenCounter [] = Inr (splitterOf 1 0 lenCounter [])
   \<and> lenCounter ''a'' \<le> 1
   \<and> Split fuel (splitterOf 1 0 lenCounter []) ''a'' = OutOfFuel"
proof -
  have inner: "innerSplit ''ab'' [literalPattern ''ab''] = ([], True, [''ab''])"
    by code_simp
  have whole: "split fuel (splitterOf 2 0 lenCounter [literalPattern ''ab'']) ''ab'' 2 = OutOfFuel"
  proof (induction fuel)
    case 0
    show ?case by simp
  next
    case (Suc fuel)
    then show ?case
      by (simp add: inner splitterOf_def lenCounter_def flushGood_def)
  qed
  have inner1: "innerSplit ''a'' [] = ([], True, [''a''])"
    by code_simp
  have single: "split fuel (splitterOf 1 0 lenCounter []) ''a'' 1 = OutOfFuel"
  proof (induction fuel)
    case 0
    show ?case by simp
  next
    case (Suc fuel)
    then show ?case
      by (simp add: inner1 splitterOf_def lenCounter_def flushGood_def)
  qed
  show ?thesis
    using whole single
    by (simp add: Split_def NewTextSplitter_def splitterOf_def WithPreservePatterns_def lenCounter_def)
qed

subsection \<open>The empty text\<close>

lemma successiveMatches_empty_text:
  assumes "successiveMatches 0 None ms"
  shows "ms = [] \<or> ms = [(0, 0)]"
proof (cases ms)
  case Nil
  then show ?thesis by simp
next
  case (Cons m ms')
  with assms have m: "m = (0, 0)" and rest: "successiveMatches 0 (Some 0) ms'"
    by (auto simp: prod_eq_iff)
  have "ms' = []"
  proof (cases ms')
    case Nil
    then show ?thesis .
  next
    case (Cons m' ms'')
    with rest show ?thesis by auto
  qed
  with Cons m show ?thesis by simp
qed

lemma innerSplit_empty_text:
  "innerSplit [] ps = ([], True, case firstMatches ps [] of None \<Rightarrow> [] | Some ms \<Rightarrow> preserveParts [] 0 ms)"
  by (simp add: innerSplit_def strings_Contains_def ContainsSpace_def runes.simps
      fullWidthNonWhitespaceSemanticSpliters_def fullWidthSentenceTerminators_def
      fullWidthClauseSparators_def nonWhitespaceSemanticSplitters_def sentenceTerminators_def
      clauseSeparators_def strings_Split.simps explode.simps split: option.splits)

text \<open>
  \<open>Split("")\<close> returns the empty list at every depth, whatever the chunk size and the
  overlap are, when the empty text is under the budget or no preserve pattern matches the
  empty text.
\<close>

lemma Split_empty_text:
  assumes contract: "\<forall>p \<in> set (PreservePatterns (opts c)). regexpContract p []"
    and budget: "countTokenFunc c [] < chunkSize c \<or> (\<forall>p \<in> set (PreservePatterns (opts c)). p [] = [])"
  shows "Split (Suc fuel) c [] = Returns []"
proof (cases "firstMatches (PreservePatterns (opts c)) []")
  case None
  then show ?thesis
    by (simp add: Split_def innerSplit_empty_text flushGood_def)
next
  case (Some ms)
  from firstMatches_Some [OF Some] obtain p
    where p: "p \<in> set (PreservePatterns (opts c))" "ms = p []" "ms \<noteq> []" by blast
  with contract have "successiveMatches 0 None ms" by (auto simp: regexpContract_def)
  with p(3) have ms: "ms = [(0, 0)]" using successiveMatches_empty_text by blast
  from p budget have small: "countTokenFunc c [] < chunkSize c" by auto
  show ?thesis
    using Some ms small
    by (simp add: Split_def innerSplit_empty_text flushGood_def mergeSplits_def flushStep_def
        estimateSize_def slice_def)
qed

text \<open>
  C8. The claim: \<open>Split("")\<close> returns the empty list for every splitter. On a splitter
  with chunk size 1, a counter that gives the empty text one token and the empty preserve
  pattern, \<open>Split("")\<close> does not return at any depth: the pattern matches the empty text, the
  empty text is its own only fragment, and it is not under the budget.
\<close>

theorem Split_empty_text_diverges:
  "NewTextSplitter 1 (OverlapInt 0) endCounter [WithPreservePatterns [[]]]
     = Inr (splitterOf 1 0 endCounter [literalPattern []])
   \<and> Split fuel (splitterOf 1 0 endCounter [literalPattern []]) [] = OutOfFuel"
proof -
  have inner: "innerSplit [] [literalPattern []] = ([], True, [[]])"
    by code_simp
  have "split fuel (splitterOf 1 0 endCounter [literalPattern []]) [] 1 = OutOfFuel"
  proof (induction fuel)
    case 0
    show ?case by simp
  next
    case (Suc fuel)
    then show ?case
      by (simp add: inner splitterOf_def endCounter_def flushGood_def)
  qed
  then show ?thesis
    by (simp add: Split_def NewTextSplitter_def splitterOf_def WithPreservePatterns_def)
qed

subsection \<open>No empty chunk\<close>

lemma flushStep_nonempty:
  assumes "flushStep c sizes splitter ssize cs l st = Inr st'" and "[] \<notin> set (fst st)"
  shows "[] \<notin> set (fst st')"
  using assms
  by (cases st) (auto simp: flushStep_def Let_def split: if_splits sum.splits)

lemma mergeLoop_nonempty:
  assumes "mergeLoop c sizes splitter ssize cs i splits st = Inr st'" and "[] \<notin> set (fst st)"
  shows "[] \<notin> set (fst st')"
  using assms
proof (induction splits arbitrary: i st)
  case Nil
  then show ?case by simp
next
  case (Cons s splits)
  from Cons.prems(1) have i: "i < length sizes" by (auto split: if_splits)
  from Cons.prems(1) i obtain merges toMerge ids sz
    where step: "flushStep c sizes splitter ssize cs (sizes ! i) st = Inr (merges, toMerge, ids, sz)"
    by (auto simp: Let_def split: sum.splits)
  have "[] \<notin> set merges"
    using flushStep_nonempty [OF step Cons.prems(2)] by simp
  then show ?case
    using Cons.prems(1) i step Cons.IH by (auto simp: Let_def)
qed

lemma mergeSplits_nonempty:
  "mergeSplits c splits sizes ids splitter cs = Inr merges \<Longrightarrow> [] \<notin> set merges"
  using mergeLoop_nonempty [of c sizes splitter "countTokenFunc c splitter" cs 0 splits "([], [], ids, 0)"]
  by (auto simp: mergeSplits_def Let_def split: sum.splits if_splits)

lemma flushGood_nonempty:
  assumes "flushGood c splitter cs st = Inr st'" and "[] \<notin> set (fst st)"
  shows "[] \<notin> set (fst st')"
  using assms
  by (cases st) (auto simp: flushGood_def split: if_splits sum.splits dest: mergeSplits_nonempty)

lemma splitLoop_nonempty:
  assumes "\<And>t r. recurse t = Returns r \<Longrightarrow> [] \<notin> set r"
    and "splitLoop recurse c splitter cs i splits st = Returns st'"
    and "[] \<notin> set (fst st)"
  shows "[] \<notin> set (fst st')"
  using assms(2,3)
proof (induction splits arbitrary: i st)
  case Nil
  then show ?case by simp
next
  case (Cons s splits)
  obtain rets gs gss gids where st: "st = (rets, gs, gss, gids)" by (cases st)
  show ?case
  proof (cases "countTokenFunc c s < cs")
    case True
    then show ?thesis using Cons st by simp
  next
    case False
    from Cons.prems(1) False st obtain rets1 gs1 gss1 gids1 new
      where fl: "flushGood c splitter cs st = Inr (rets1, gs1, gss1, gids1)"
        and re: "recurse s = Returns new"
        and loop: "splitLoop recurse c splitter cs (Suc i) splits (rets1 @ new, gs1, gss1, gids1)
                     = Returns st'"
      by (auto split: sum.splits outcome.splits)
    have "[] \<notin> set rets1" using flushGood_nonempty [OF fl Cons.prems(2)] by simp
    moreover have "[] \<notin> set new" using assms(1) [OF re] .
    ultimately show ?thesis using Cons.IH [OF loop] by simp
  qed
qed

lemma split_nonempty:
  "split fuel c t cs = Returns chunks \<Longrightarrow> [] \<notin> set chunks"
proof (induction fuel arbitrary: t chunks)
  case 0
  then show ?case by simp
next
  case (Suc fuel)
  obtain splitter ws splits where inner: "innerSplit t (PreservePatterns (opts c)) = (splitter, ws, splits)"
    by (cases "innerSplit t (PreservePatterns (opts c))")
  from Suc.prems inner obtain st gs gss gids
    where loop: "splitLoop (\<lambda>fragment. split fuel c fragment cs) c splitter cs 0 splits ([], [], [], [])
                   = Returns st"
      and fl: "flushGood c splitter cs st = Inr (chunks, gs, gss, gids)"
    by (auto split: outcome.splits sum.splits)
  have "[] \<notin> set (fst st)"
    using splitLoop_nonempty [OF _ loop] Suc.IH by simp
  then show ?case using flushGood_nonempty [OF fl] by simp
qed

text \<open>
  C10. Every chunk in a list that \<open>Split\<close> returns is a non-empty string: chunks come
  from the merger only, which drops an accumulator that joins to the empty string.
\<close>

theorem Split_chunks_nonempty:
  assumes "Split fuel c text = Returns chunks"
  shows "\<forall>chunk \<in> set chunks. chunk \<noteq> []"
  using split_nonempty assms unfolding Split_def by blast

theorem Split_chunks_nonempty_witness:
  "Split 2 (splitterOf 3 0 lenCounter []) ''a  bc'' = Returns [''a'', ''bc'']
   \<and> ''a'' \<noteq> [] \<and> ''bc'' \<noteq> []"
proof -
  have run: "Split 2 (splitterOf 3 0 lenCounter []) ''a  bc'' = Returns [''a'', ''bc'']"
    by code_simp
  show ?thesis
    using run Split_chunks_nonempty [OF run] by simp
qed

section \<open>Rejoining the chunks\<close>

subsection \<open>Every delimiter is delimiter text\<close>







lemma foldl_longest_member:
  "foldl (\<lambda>longest splitter. if length splitter > length longest then splitter else longest) a xs
     \<in> set (a # xs)"
proof (induction xs arbitrary: a)
  case Nil
  show ?case by simp
next
  case (Cons x xs)
  show ?case
    using Cons [of x] Cons [of a] by (cases "length x > length a") auto
qed

lemma longestSplitter_member: "xs \<noteq> [] \<Longrightarrow> longestSplitter xs \<in> set xs"
  using foldl_longest_member by (cases xs) auto




subsection \<open>Chunk lists one after the other\<close>

lemma emitted_Nil_iff: "emitted [] e \<longleftrightarrow> e = []"
  by (auto elim: emitted.cases intro: emitted_none)








subsection \<open>The merger keeps its invariant\<close>








subsection \<open>The splitter keeps its invariant\<close>




subsection \<open>What rejoining says\<close>

text \<open>
  A list of chunks that rejoins to a text holds nothing but pieces of the text, and a word
  that no chunk holds cannot be passed off as a gap.
\<close>

lemma emitted_last_suffix: "emitted chunks e \<Longrightarrow> chunks \<noteq> [] \<Longrightarrow> suffix (last chunks) e"
proof (induction rule: emitted.induct)
  case emitted_none
  then show ?case by simp
next
  case (emitted_chunk chunks e gap overlapped fresh)
  show ?case
  proof (cases "overlapped = []")
    case True
    then show ?thesis by (simp add: suffix_def)
  next
    case False
    with emitted_chunk have gap: "gap = []" and ne: "chunks \<noteq> []"
      by (auto split: if_splits)
    with emitted_chunk have "suffix overlapped e"
      using suffix_order.trans by fastforce
    then show ?thesis using gap by (auto simp: suffix_def)
  qed
qed

lemma emitted_chunk_in_text:
  "emitted chunks e \<Longrightarrow> chunk \<in> set chunks \<Longrightarrow> \<exists>u v. e = u @ chunk @ v"
proof (induction rule: emitted.induct)
  case emitted_none
  then show ?case by simp
next
  case (emitted_chunk chunks e gap overlapped fresh)
  show ?case
  proof (cases "chunk \<in> set chunks")
    case True
    then obtain u v where "e = u @ chunk @ v" using emitted_chunk.IH by blast
    then have "e @ gap @ fresh = u @ chunk @ (v @ gap @ fresh)" by simp
    then show ?thesis by blast
  next
    case False
    then have new: "chunk = overlapped @ fresh" using emitted_chunk.prems by simp
    have "emitted (chunks @ [overlapped @ fresh]) (e @ gap @ fresh)"
      using emitted_chunk.hyps by (rule emitted.emitted_chunk)
    from emitted_last_suffix [OF this] obtain u where "e @ gap @ fresh = u @ chunk"
      using new by (auto simp: suffix_def)
    then have "e @ gap @ fresh = u @ chunk @ []" by simp
    then show ?thesis by blast
  qed
qed

lemma rejoins_chunk_in_text:
  assumes "rejoins chunks t" and "chunk \<in> set chunks"
  shows "\<exists>u v. t = u @ chunk @ v"
proof -
  from assms(1) obtain e gap where e: "emitted chunks e" and t: "t = e @ gap"
    unfolding rejoins_def by blast
  from emitted_chunk_in_text [OF e assms(2)] obtain u v where "e = u @ chunk @ v" by blast
  then have "t = u @ chunk @ (v @ gap)" using t by simp
  then show ?thesis by blast
qed

lemma delimiterText_bytes: "delimiterText g \<Longrightarrow> set g \<subseteq> set (concat delimiterStrings)"
  unfolding delimiterText_def by fastforce

lemma rejoins_single:
  assumes "rejoins [chunk] t"
  shows "\<exists>g1 g2. delimiterText g1 \<and> delimiterText g2 \<and> t = g1 @ chunk @ g2"
proof -
  from assms obtain e g2 where e: "emitted [chunk] e" and g2: "delimiterText g2" and t: "t = e @ g2"
    unfolding rejoins_def by blast
  from e obtain chunks e0 g1 ov fresh
    where "[chunk] = chunks @ [ov @ fresh]" "e = e0 @ g1 @ fresh" "emitted chunks e0"
      "delimiterText g1" "suffix ov (if chunks = [] then [] else last chunks)"
    by (cases rule: emitted.cases) auto
  then have "chunks = []" "chunk = fresh" "e = g1 @ fresh" "delimiterText g1"
    by (auto simp: emitted_Nil_iff)
  then show ?thesis using g2 t by auto
qed

lemma rejoins_keeps_words: "\<not> rejoins [''hello''] ''hello world''"
proof
  assume "rejoins [''hello''] ''hello world''"
  from rejoins_single [OF this] obtain g1 g2
    where g1: "delimiterText g1" and g2: "delimiterText g2"
      and eq: "''hello world'' = g1 @ ''hello'' @ g2"
    by blast
  have bytes: "CHR ''h'' \<notin> set (concat delimiterStrings)" "CHR ''w'' \<notin> set (concat delimiterStrings)"
    by (simp_all add: delimiterStrings_def fullWidthNonWhitespaceSemanticSpliters_def
        fullWidthSentenceTerminators_def fullWidthClauseSparators_def
        nonWhitespaceSemanticSplitters_def sentenceTerminators_def clauseSeparators_def)
  have "g1 = []"
  proof (cases g1)
    case Nil
    then show ?thesis .
  next
    case (Cons a as)
    with eq have "a = CHR ''h''" by simp
    with Cons have "CHR ''h'' \<in> set g1" by simp
    with delimiterText_bytes [OF g1] bytes show ?thesis by blast
  qed
  with eq have "g2 = '' world''" by simp
  then have "CHR ''w'' \<in> set g2" by simp
  with delimiterText_bytes [OF g2] bytes show False by blast
qed




section \<open>Where the splitter returns\<close>

subsection \<open>Fragments are shorter than their span\<close>

text \<open>
  Without preserve patterns, a fragment that \<open>innerSplit\<close> returns is shorter than the
  span, or is a text of at most one character.
\<close>

lemma strings_Index_infix: "strings_Index (u @ r @ v) r \<noteq> None"
proof (induction u)
  case Nil
  have "prefix r (r @ v)" by simp
  then show ?case by (cases "r @ v") auto
next
  case (Cons a u)
  then show ?case by auto
qed

lemma findAllRuns_infix:
  "r \<in> set (findAllRuns P s) \<Longrightarrow> r \<noteq> [] \<and> (\<exists>u v. s = u @ r @ v)"
proof (induction P s rule: findAllRuns.induct)
  case (1 P)
  then show ?case by simp
next
  case (2 P c cs)
  show ?case
  proof (cases "P c")
    case True
    with "2.prems" have "r = c # takeWhile P cs \<or> r \<in> set (findAllRuns P (dropWhile P cs))"
      by simp
    then show ?thesis
    proof
      assume r: "r = c # takeWhile P cs"
      then have "c # cs = [] @ r @ dropWhile P cs" by simp
      then show ?thesis using r by blast
    next
      assume "r \<in> set (findAllRuns P (dropWhile P cs))"
      with "2.IH"(1) [OF True] obtain u v where ne: "r \<noteq> []" and "dropWhile P cs = u @ r @ v"
        by blast
      then have "c # cs = (c # takeWhile P cs @ u) @ r @ v"
        by (metis append_Cons append_assoc takeWhile_dropWhile_id)
      then show ?thesis using ne by blast
    qed
  next
    case False
    with "2.prems" have "r \<in> set (findAllRuns P cs)" by simp
    with "2.IH"(2) [OF False] obtain u v where ne: "r \<noteq> []" and "cs = u @ r @ v" by blast
    then have "c # cs = (c # u) @ r @ v" by simp
    then show ?thesis using ne by blast
  qed
qed

lemma strings_Join_length:
  "length (strings_Join xs sep) = sum_list (map length xs) + (length xs - 1) * length sep"
  by (induction xs sep rule: strings_Join.induct) auto

lemma strings_Join_longer:
  assumes "f \<in> set xs" and "2 \<le> length xs" and "sep \<noteq> []"
  shows "length f < length (strings_Join xs sep)"
proof -
  define k where "k = (length xs - 1) * length sep"
  have "length f \<le> sum_list (map length xs)"
    using assms(1) by (simp add: member_le_sum_list)
  moreover have "0 < k"
    using assms(2,3) by (simp add: k_def)
  moreover have "length (strings_Join xs sep) = sum_list (map length xs) + k"
    by (simp add: strings_Join_length k_def)
  ultimately show ?thesis by linarith
qed

lemma strings_Split_two:
  assumes "sep \<noteq> []" and "strings_Index s sep \<noteq> None"
  shows "2 \<le> length (strings_Split s sep)"
proof -
  from assms(2) obtain m where m: "strings_Index s sep = Some m" by blast
  have "strings_Split s sep = take m s # strings_Split (drop (m + length sep) s) sep"
    using assms(1) m by (subst strings_Split.simps) simp
  moreover have "strings_Split (drop (m + length sep) s) sep \<noteq> []"
    using assms(1) by (rule strings_Split_nonempty)
  ultimately show ?thesis
    by (cases "strings_Split (drop (m + length sep) s) sep") auto
qed

lemma strings_Split_shorter:
  assumes "sep \<noteq> []" and "strings_Index s sep \<noteq> None" and "f \<in> set (strings_Split s sep)"
  shows "length f < length s"
  using strings_Join_longer [OF assms(3) strings_Split_two [OF assms(1,2)] assms(1)]
  by (simp add: strings_Join_Split)

lemma split_on_run_shorter:
  assumes "findAllRuns P t \<noteq> []"
    and "f \<in> set (strings_Split t (longestSplitter (findAllRuns P t)))"
  shows "length f < length t"
proof -
  have "longestSplitter (findAllRuns P t) \<in> set (findAllRuns P t)"
    using assms(1) by (rule longestSplitter_member)
  from findAllRuns_infix [OF this] obtain u v
    where ne: "longestSplitter (findAllRuns P t) \<noteq> []"
      and "t = u @ longestSplitter (findAllRuns P t) @ v" by blast
  then have "strings_Index t (longestSplitter (findAllRuns P t)) \<noteq> None"
    using strings_Index_infix by metis
  from strings_Split_shorter [OF ne this assms(2)] show ?thesis .
qed

lemma split_on_listed_shorter:
  assumes "find (strings_Contains t) xs = Some sp" and "[] \<notin> set xs"
    and "f \<in> set (strings_Split t sp)"
  shows "length f < length t"
proof -
  from assms(1) have "strings_Contains t sp" and "sp \<in> set xs"
    by (auto simp: find_Some_iff)
  then have "strings_Index t sp \<noteq> None" and "sp \<noteq> []"
    using assms(2) by (auto simp: strings_Contains_def)
  from strings_Split_shorter [OF this(2) this(1) assms(3)] show ?thesis .
qed

lemma findPrecederSpace_infix:
  "findPrecederSpace pre s = Some w \<Longrightarrow> w \<noteq> [] \<and> (\<exists>u v. s = u @ (pre @ w) @ v)"
proof (induction s)
  case Nil
  then show ?case by simp
next
  case (Cons a s)
  have later: ?case if "findPrecederSpace pre s = Some w"
  proof -
    from Cons.IH [OF that] obtain u v where "w \<noteq> []" "s = u @ (pre @ w) @ v" by blast
    then have "w \<noteq> [] \<and> a # s = (a # u) @ (pre @ w) @ v" by simp
    then show ?thesis by blast
  qed
  show ?case
  proof (cases "prefix pre (a # s)")
    case False
    then show ?thesis using Cons.prems later by simp
  next
    case True
    then obtain r where r: "a # s = pre @ r" by (auto simp: prefix_def)
    then have dr: "drop (length pre) (a # s) = r" by (metis append_eq_conv_conj)
    show ?thesis
    proof (cases r)
      case Nil
      then show ?thesis using Cons.prems True dr later by simp
    next
      case (Cons x xs)
      show ?thesis
      proof (cases "reSpace x")
        case False
        then show ?thesis using Cons.prems True dr Cons later by simp
      next
        case sp: True
        then have "w = [x]" using Cons.prems True dr Cons by simp
        moreover have "a # s = [] @ (pre @ [x]) @ xs" using r Cons by simp
        ultimately show ?thesis by blast
      qed
    qed
  qed
qed

lemma lookbehindParts_length:
  "length (lookbehindParts t pre lastIndex ms) = Suc (length ms)"
  by (induction ms arbitrary: lastIndex) auto

lemma LookbehindSplit_shorter:
  assumes "findPrecederSpace pre t = Some w" and "f \<in> set (LookbehindSplit t pre w)"
  shows "length f < length t"
proof -
  from findPrecederSpace_infix [OF assms(1)] obtain u v
    where w: "w \<noteq> []" and t: "t = u @ (pre @ w) @ v" by blast
  have "strings_Index (drop 0 t) (pre @ w) \<noteq> None"
    using t strings_Index_infix by (metis drop0)
  then have "findAllLiteral (pre @ w) t 0 \<noteq> []"
    using w by (subst findAllLiteral.simps) auto
  then have "2 \<le> length (LookbehindSplit t pre w)"
    by (cases "findAllLiteral (pre @ w) t 0")
       (auto simp: LookbehindSplit_def lookbehindParts_length)
  from strings_Join_longer [OF assms(2) this w] show ?thesis
    by (simp add: strings_Join_LookbehindSplit)
qed

lemma lookbehindRefine_shorter:
  "lookbehindRefine t ps = Some r \<Longrightarrow> f \<in> set (snd (snd r)) \<Longrightarrow> length f < length t"
proof (induction ps)
  case Nil
  then show ?case by simp
next
  case (Cons p ps)
  show ?case
  proof (cases "findPrecederSpace p t")
    case None
    then show ?thesis using Cons by simp
  next
    case (Some w)
    then have "snd (snd r) = LookbehindSplit t p w" using Cons.prems by auto
    then show ?thesis using LookbehindSplit_shorter [OF Some] Cons.prems(2) by simp
  qed
qed

lemma explode_pieces_nonempty: "x \<in> set (explode s) \<Longrightarrow> x \<noteq> []"
proof (induction s rule: explode.induct)
  case (1 s)
  show ?case
  proof (cases "s = []")
    case True
    then show ?thesis using "1.prems" by (simp add: explode.simps)
  next
    case False
    from "1.prems" False
    have "x = take (snd (DecodeRuneInString s)) s
        \<or> x \<in> set (explode (drop (snd (DecodeRuneInString s)) s))"
      by (subst (asm) explode.simps) auto
    then show ?thesis
      using "1.IH" [OF False] DecodeRune_width [OF False] False by (cases s) auto
  qed
qed

lemma concat_longer:
  assumes "f \<in> set xs" and "2 \<le> length xs" and "[] \<notin> set xs"
  shows "length f < length (concat xs)"
  using assms
proof (induction xs)
  case Nil
  then show ?case by simp
next
  case (Cons x xs)
  from Cons.prems obtain y ys where xs: "xs = y # ys" by (cases xs) auto
  have ne: "x \<noteq> []" "y \<noteq> []" using Cons.prems(3) xs by auto
  show ?case
  proof (cases "f = x")
    case True
    then show ?thesis using ne xs by simp
  next
    case False
    then have "f \<in> set xs" using Cons.prems(1) by simp
    then have "length f \<le> length (concat xs)"
      by (induction xs) (auto simp: le_SucI trans_le_add2)
    moreover have "0 < length x" using ne by simp
    moreover have "length (concat (x # xs)) = length x + length (concat xs)" by simp
    ultimately show ?thesis by linarith
  qed
qed

lemma explode_shorter:
  assumes "f \<in> set (explode t)" and "2 \<le> length (explode t)"
  shows "length f < length t"
  using concat_longer [OF assms] explode_pieces_nonempty [of _ t]
  by (auto simp: concat_explode)

lemma explode_fragment:
  assumes "f \<in> set (explode t)"
  shows "length f < length t \<or> length (explode f) \<le> 1"
proof (cases "2 \<le> length (explode t)")
  case True
  then show ?thesis using explode_shorter [OF assms] by simp
next
  case False
  then have "length (explode t) \<le> 1" by simp
  moreover have "explode t \<noteq> []" using assms by auto
  ultimately obtain x where x: "explode t = [x]"
    by (cases "explode t") auto
  then have "f = x" using assms by simp
  moreover have "t = x" using concat_explode [of t] x by simp
  ultimately show ?thesis using x by simp
qed

lemma innerSplit_fragments_shorter:
  assumes "f \<in> set (snd (snd (innerSplit t [])))"
  shows "length f < length t \<or> length (explode f) \<le> 1"
proof -
  have fw: "[] \<notin> set fullWidthNonWhitespaceSemanticSpliters"
    by (simp add: fullWidthNonWhitespaceSemanticSpliters_def fullWidthSentenceTerminators_def
        fullWidthClauseSparators_def)
  have hw: "[] \<notin> set nonWhitespaceSemanticSplitters"
    by (simp add: nonWhitespaceSemanticSplitters_def sentenceTerminators_def clauseSeparators_def)
  have fallback: "length f < length t \<or> length (explode f) \<le> 1"
    if "f \<in> set (strings_Split t [])"
    using that explode_fragment [of f t] by (subst (asm) strings_Split.simps) simp
  show ?thesis
    using assms unfolding innerSplit_def
    by (auto simp: Let_def split: if_splits option.splits
        dest: split_on_run_shorter split_on_listed_shorter [OF _ fw]
          split_on_listed_shorter [OF _ hw] lookbehindRefine_shorter fallback)
qed

subsection \<open>No recursion without end, and no panic without overlap\<close>

text \<open>
  Without preserve patterns, and when every text of at most one character is under the
  budget, \<open>split\<close> recurses to a depth of at most the length of the text; when moreover
  the overlap is 0 the merger does not panic, and \<open>Split\<close> returns a chunk list.
\<close>

lemma splitLoop_not_OutOfFuel:
  assumes "\<forall>f \<in> set splits. cs \<le> countTokenFunc c f \<longrightarrow> recurse f \<noteq> OutOfFuel"
  shows "splitLoop recurse c d cs i splits st \<noteq> OutOfFuel"
  using assms
proof (induction splits arbitrary: i st)
  case Nil
  show ?case by simp
next
  case (Cons s splits)
  obtain rets gs gss gids where st: "st = (rets, gs, gss, gids)" by (cases st)
  show ?case
  proof (cases "countTokenFunc c s < cs")
    case True
    then show ?thesis using Cons st by simp
  next
    case False
    then have "recurse s \<noteq> OutOfFuel" using Cons.prems by simp
    then show ?thesis
      using Cons False st by (auto split: sum.splits outcome.splits)
  qed
qed

lemma split_not_OutOfFuel:
  assumes pats: "PreservePatterns (opts c) = []"
    and atoms: "\<forall>s. length (explode s) \<le> 1 \<longrightarrow> countTokenFunc c s < cs"
  shows "length t < fuel \<Longrightarrow> split fuel c t cs \<noteq> OutOfFuel"
proof (induction fuel arbitrary: t)
  case 0
  then show ?case by simp
next
  case (Suc fuel)
  obtain d ws frags where inner: "innerSplit t [] = (d, ws, frags)"
    by (cases "innerSplit t []")
  have "\<forall>f \<in> set frags. cs \<le> countTokenFunc c f \<longrightarrow> split fuel c f cs \<noteq> OutOfFuel"
  proof (intro ballI impI)
    fix f
    assume f: "f \<in> set frags" and big: "cs \<le> countTokenFunc c f"
    from innerSplit_fragments_shorter [of f t] f inner
    have "length f < length t \<or> length (explode f) \<le> 1" by simp
    with atoms big have "length f < length t" by fastforce
    with Suc.prems have "length f < fuel" by simp
    then show "split fuel c f cs \<noteq> OutOfFuel" by (rule Suc.IH)
  qed
  from splitLoop_not_OutOfFuel [OF this]
  have "splitLoop (\<lambda>fragment. split fuel c fragment cs) c d cs 0 frags ([], [], [], []) \<noteq> OutOfFuel" .
  then show ?case
    using inner pats by (auto split: outcome.splits sum.splits)
qed

lemma mergeLoop_no_overlap:
  assumes "overlap c \<le> 0" and "i + length splits \<le> length sizes"
  shows "\<exists>st'. mergeLoop c sizes d ssize cs i splits st = Inr st'"
  using assms(2)
proof (induction splits arbitrary: i st)
  case Nil
  show ?case by (cases st) auto
next
  case (Cons s splits)
  obtain merges tm ids sz where st: "st = (merges, tm, ids, sz)" by (cases st)
  from Cons.prems have i: "i < length sizes" and rest: "Suc i + length splits \<le> length sizes"
    by simp_all
  have "\<exists>st1. flushStep c sizes d ssize cs (sizes ! i) st = Inr st1"
    by (cases st) (use assms(1) in \<open>auto simp: flushStep_def Let_def\<close>)
  then obtain st1 where step: "flushStep c sizes d ssize cs (sizes ! i) st = Inr st1" by blast
  obtain merges1 tm1 ids1 sz1 where st1: "st1 = (merges1, tm1, ids1, sz1)" by (cases st1)
  show ?case
    using i step st1 Cons.IH [OF rest] by (simp add: Let_def)
qed

lemma mergeSplits_no_overlap:
  assumes "overlap c \<le> 0" and "length splits \<le> length sizes"
  shows "\<exists>merges. mergeSplits c splits sizes ids d cs = Inr merges"
proof -
  have "\<exists>st'. mergeLoop c sizes d (countTokenFunc c d) cs 0 splits ([], [], ids, 0) = Inr st'"
    by (rule mergeLoop_no_overlap [OF assms(1)]) (simp add: assms(2))
  then obtain st'
    where "mergeLoop c sizes d (countTokenFunc c d) cs 0 splits ([], [], ids, 0) = Inr st'"
    by blast
  then show ?thesis
    by (cases st') (auto simp: mergeSplits_def Let_def)
qed

lemma flushGood_no_overlap:
  assumes "overlap c \<le> 0" and "aligned st"
  shows "\<exists>st'. flushGood c d cs st = Inr st' \<and> aligned st'"
proof -
  obtain rets gs gss gids where st: "st = (rets, gs, gss, gids)" by (cases st)
  with assms(2) have len: "length gs \<le> length gss" by (simp add: aligned_def)
  from mergeSplits_no_overlap [OF assms(1) len]
  obtain merges where "mergeSplits c gs gss gids d cs = Inr merges" by blast
  then show ?thesis
    using st assms(2) by (auto simp: flushGood_def aligned_def)
qed

lemma splitLoop_returns:
  assumes "overlap c \<le> 0"
    and "\<forall>f \<in> set splits. cs \<le> countTokenFunc c f \<longrightarrow> (\<exists>r. recurse f = Returns r)"
    and "aligned st"
  shows "\<exists>st'. splitLoop recurse c d cs i splits st = Returns st' \<and> aligned st'"
  using assms(2,3)
proof (induction splits arbitrary: i st)
  case Nil
  then show ?case by simp
next
  case (Cons s splits)
  obtain rets gs gss gids where st: "st = (rets, gs, gss, gids)" by (cases st)
  show ?case
  proof (cases "countTokenFunc c s < cs")
    case True
    have "aligned (rets, gs @ [s], gss @ [countTokenFunc c s], gids @ [int i])"
      using Cons.prems(2) st by (simp add: aligned_def)
    then show ?thesis using Cons True st by simp
  next
    case False
    then obtain r where r: "recurse s = Returns r" using Cons.prems(1) by auto
    from flushGood_no_overlap [OF assms(1) Cons.prems(2)]
    obtain st1 where fl: "flushGood c d cs st = Inr st1" and al: "aligned st1" by blast
    obtain rets1 gs1 gss1 gids1 where st1: "st1 = (rets1, gs1, gss1, gids1)" by (cases st1)
    have "aligned (rets1 @ r, gs1, gss1, gids1)" using al st1 by (simp add: aligned_def)
    then show ?thesis
      using Cons False st fl st1 r by simp
  qed
qed

lemma split_returns:
  assumes pats: "PreservePatterns (opts c) = []" and ov: "overlap c \<le> 0"
    and atoms: "\<forall>s. length (explode s) \<le> 1 \<longrightarrow> countTokenFunc c s < cs"
  shows "length t < fuel \<Longrightarrow> \<exists>chunks. split fuel c t cs = Returns chunks"
proof (induction fuel arbitrary: t)
  case 0
  then show ?case by simp
next
  case (Suc fuel)
  obtain d ws frags where inner: "innerSplit t [] = (d, ws, frags)"
    by (cases "innerSplit t []")
  have "\<forall>f \<in> set frags. cs \<le> countTokenFunc c f \<longrightarrow> (\<exists>r. split fuel c f cs = Returns r)"
  proof (intro ballI impI)
    fix f
    assume f: "f \<in> set frags" and big: "cs \<le> countTokenFunc c f"
    from innerSplit_fragments_shorter [of f t] f inner
    have "length f < length t \<or> length (explode f) \<le> 1" by simp
    with atoms big have "length f < length t" by fastforce
    with Suc.prems have "length f < fuel" by simp
    then show "\<exists>r. split fuel c f cs = Returns r" by (rule Suc.IH)
  qed
  moreover have "aligned ([], [], [], [])" by (simp add: aligned_def)
  ultimately obtain st
    where loop: "splitLoop (\<lambda>fragment. split fuel c fragment cs) c d cs 0 frags ([], [], [], [])
                   = Returns st" and al: "aligned st"
    using splitLoop_returns [OF ov, where recurse = "\<lambda>fragment. split fuel c fragment cs"]
    by blast
  from flushGood_no_overlap [OF ov al] obtain st' where "flushGood c d cs st = Inr st'" by blast
  then show ?case
    using inner pats loop by (cases st') simp
qed

lemma Split_terminates:
  assumes "PreservePatterns (opts c) = []"
    and "\<forall>s. length (explode s) \<le> 1 \<longrightarrow> countTokenFunc c s < chunkSize c"
  shows "Split (Suc (length t)) c t \<noteq> OutOfFuel"
  unfolding Split_def by (rule split_not_OutOfFuel [OF assms]) (rule lessI)

lemma Split_returns:
  assumes "PreservePatterns (opts c) = []" and "overlap c \<le> 0"
    and "\<forall>s. length (explode s) \<le> 1 \<longrightarrow> countTokenFunc c s < chunkSize c"
  shows "\<exists>chunks. Split (Suc (length t)) c t = Returns chunks"
  unfolding Split_def by (rule split_returns [OF assms]) (rule lessI)

end
